theory Spec2Isabelle
  imports Main
begin

section \<open>Data model\<close>

text \<open>
  The options of \<open>rateLimit\<close> (lib/rate-limit): the window length in milliseconds and the
  number of tokens the cache may track. Times, limits and the interval are integers
  (\<open>Date.now()\<close> is an integral number of milliseconds); the key count is a natural number.
\<close>

record RateLimitOptions =
  interval :: int
  uniqueTokenPerInterval :: nat

text \<open>The object returned by \<open>check\<close>.\<close>

record CheckResult =
  success :: bool
  remaining :: int

text \<open>
  One slot of the token cache: the token, the timestamps stored for it and the time of
  the write that stored them.
\<close>

record Entry =
  ekey :: string
  evalue :: "int list"
  estart :: int

text \<open>The cache is the list of its slots, the most recently used one first.\<close>

type_synonym LRUCache = "Entry list"

section \<open>The token cache\<close>

text \<open>
  Modelled from the spec: the class \<open>LRUCache\<close> of the package lru-cache, which the
  repository imports and does not contain. Window Store, get/set contract: a key that was
  never seen, was evicted or has expired is absent.
\<close>

definition cache_lookup :: "string \<Rightarrow> LRUCache \<Rightarrow> Entry option" where
  "cache_lookup k c = find (\<lambda>e. ekey e = k) c"

text \<open>
  Modelled from the spec: removal of a key's slot from the \<open>LRUCache\<close> of lru-cache
  (an expired entry is dropped when it is read).
\<close>

definition cache_delete :: "string \<Rightarrow> LRUCache \<Rightarrow> LRUCache" where
  "cache_delete k c = filter (\<lambda>e. ekey e \<noteq> k) c"

text \<open>
  Modelled from the spec: expiry in the \<open>LRUCache\<close> of lru-cache. An entry is treated as
  absent once more than \<open>ttl\<close> milliseconds have passed since its last write.
\<close>

definition is_stale :: "int \<Rightarrow> int \<Rightarrow> Entry \<Rightarrow> bool" where
  "is_stale ttl now e = (now - estart e > ttl)"

text \<open>
  Modelled from the spec: \<open>LRUCache.get\<close> of lru-cache. It returns the timestamps of a live
  key and makes that key the most recently used one; it leaves the time of the last write
  alone. A missing or expired key gives \<open>None\<close> (JavaScript's \<open>undefined\<close>).
\<close>

definition cache_get :: "int \<Rightarrow> int \<Rightarrow> string \<Rightarrow> LRUCache \<Rightarrow> int list option \<times> LRUCache" where
  "cache_get ttl now k c =
     (case cache_lookup k c of
        None \<Rightarrow> (None, c)
      | Some e \<Rightarrow>
          if is_stale ttl now e then (None, cache_delete k c)
          else (Some (evalue e), e # cache_delete k c))"

text \<open>
  Modelled from the spec: \<open>LRUCache.set\<close> of lru-cache. It replaces or inserts the entry of
  the key, restarts its time to live and makes it the most recently used one; when the key
  is new and the cache is at capacity, the least recently used key is evicted first.
\<close>

definition cache_set :: "nat \<Rightarrow> int \<Rightarrow> string \<Rightarrow> int list \<Rightarrow> LRUCache \<Rightarrow> LRUCache" where
  "cache_set maxKeys now k v c =
     (let e = \<lparr>ekey = k, evalue = v, estart = now\<rparr>
      in case cache_lookup k c of
           Some _ \<Rightarrow> e # cache_delete k c
         | None \<Rightarrow> e # (if maxKeys \<le> length c then butlast c else c))"

section \<open>JavaScript numbers\<close>

text \<open>
  The number of binary digits of a natural number.
\<close>

fun bit_length :: "nat \<Rightarrow> nat" where
  "bit_length n = (if n = 0 then 0 else Suc (bit_length (n div 2)))"

declare bit_length.simps [simp del]

text \<open>
  An arithmetic result in JavaScript's number type (IEEE 754 binary64, round to nearest,
  ties to even), for an exact result that is an integer: up to \<open>2^53 = 9007199254740992\<close>
  in magnitude it is kept; beyond that it moves to the nearest multiple of the spacing
  \<open>q\<close> of representable numbers around it, and halfway between two of them to the one with
  the even multiplier. The subtractions of \<open>check\<close> cannot overflow.
\<close>

definition binary64_round :: "int \<Rightarrow> int" where
  "binary64_round x =
     (if \<bar>x\<bar> \<le> 9007199254740992 then x
      else
        let q = 2 ^ (bit_length (nat \<bar>x\<bar>) - 53);
            d = x div q;
            r = x mod q
        in if 2 * r < q then d * q
           else if q < 2 * r then (d + 1) * q
           else if even d then d * q else (d + 1) * q)"

section \<open>The limiter\<close>

text \<open>
  \<open>rateLimit(options).check(limit, token)\<close>. The cache is created with
  \<open>max = options.uniqueTokenPerInterval\<close> and \<open>ttl = options.interval\<close>; the call reads the
  clock once (\<open>currentTime\<close>), and the cache is passed in and returned. The cache measures
  the age of its entries on the same clock: no time passes between the read of the cache
  and \<open>Date.now()\<close>. A missing entry is replaced by \<open>[0]\<close>; an array that is stored is never
  empty, so \<open>||\<close> replaces nothing else. The limit is an integer-valued number, and
  \<open>limit - validTimestamps.length\<close> is computed in the number type; clock readings and
  their differences are far below \<open>2^53\<close> and exact.
\<close>

definition check ::
  "RateLimitOptions \<Rightarrow> int \<Rightarrow> int \<Rightarrow> string \<Rightarrow> LRUCache \<Rightarrow> CheckResult \<times> LRUCache" where
  "check options currentTime limit token tokenCache =
     (let (hit, cache1) = cache_get (interval options) currentTime token tokenCache;
          tokenCount = (case hit of None \<Rightarrow> [0] | Some ts \<Rightarrow> ts);
          validTimestamps =
            filter (\<lambda>timestamp. currentTime - timestamp < interval options) tokenCount
      in if limit \<le> int (length validTimestamps)
         then (\<lparr>success = False, remaining = 0\<rparr>, cache1)
         else
           let pushed = validTimestamps @ [currentTime]
           in (\<lparr>success = True, remaining = binary64_round (limit - int (length pushed))\<rparr>,
               cache_set (uniqueTokenPerInterval options) currentTime token pushed cache1))"

text \<open>
  A sequence of calls \<open>(time, limit, token)\<close> made one after the other on the same limiter:
  the results in order and the cache left behind.
\<close>

type_synonym Call = "int \<times> int \<times> string"

fun run :: "RateLimitOptions \<Rightarrow> Call list \<Rightarrow> LRUCache \<Rightarrow> CheckResult list \<times> LRUCache" where
  "run options [] c = ([], c)"
| "run options ((t, l, k) # cs) c =
     (let (r, c1) = check options t l k c;
          (rs, c2) = run options cs c1
      in (r # rs, c2))"

section \<open>Requests\<close>

text \<open>
  What the helpers read of a \<open>NextRequest\<close>: its header list, with lower-case names and
  one value for each name, as \<open>req.headers\<close> keeps it. Header values are byte strings, so
  a \<open>string\<close> holds each of them exactly.
\<close>

record NextRequest =
  headers :: "(string \<times> string) list"

text \<open>\<open>req.headers.get(name)\<close>: the value, or \<open>None\<close> for JavaScript's \<open>null\<close>.\<close>

definition headers_get :: "NextRequest \<Rightarrow> string \<Rightarrow> string option" where
  "headers_get req name = map_of (headers req) name"

text \<open>
  JavaScript's truthiness of a value of type \<open>string | null | undefined\<close>: the empty
  string is falsy, as \<open>null\<close> and \<open>undefined\<close> are.
\<close>

definition truthy :: "string option \<Rightarrow> bool" where
  "truthy v = (case v of None \<Rightarrow> False | Some s \<Rightarrow> s \<noteq> [])"

text \<open>The operator \<open>a || b\<close> on such values, and with a string literal on the right.\<close>

definition js_or :: "string option \<Rightarrow> string option \<Rightarrow> string option" where
  "js_or a b = (if truthy a then a else b)"

definition js_or_string :: "string option \<Rightarrow> string \<Rightarrow> string" where
  "js_or_string a b = (case a of None \<Rightarrow> b | Some s \<Rightarrow> if s \<noteq> [] then s else b)"

text \<open>\<open>getRateLimitIdentifier(req, userId?)\<close>.\<close>

definition getRateLimitIdentifier :: "NextRequest \<Rightarrow> string option \<Rightarrow> string" where
  "getRateLimitIdentifier req userId =
     (let ip = js_or_string
                 (js_or (headers_get req ''x-forwarded-for'') (headers_get req ''x-real-ip''))
                 ''unknown''
      in case userId of
           None \<Rightarrow> ''ip:'' @ ip
         | Some u \<Rightarrow> if truthy userId then ''user:'' @ u else ''ip:'' @ ip)"

text \<open>
  \<open>String.prototype.toLowerCase\<close> on one character of an 8-bit string: the letters
  \<open>A\<close> to \<open>Z\<close> and the Latin-1 capitals (codes 192 to 222 without the multiplication sign,
  215) move up by 32; every other character stays.
\<close>

definition toLowerCase_char :: "char \<Rightarrow> char" where
  "toLowerCase_char c =
     (let n = (of_char c :: nat)
      in if (65 \<le> n \<and> n \<le> 90) \<or> (192 \<le> n \<and> n \<le> 222 \<and> n \<noteq> 215)
         then char_of (n + 32) else c)"

definition toLowerCase :: "string \<Rightarrow> string" where
  "toLowerCase s = map toLowerCase_char s"

text \<open>\<open>s.startsWith(p)\<close>.\<close>

definition startsWith :: "string \<Rightarrow> string \<Rightarrow> bool" where
  "startsWith s p = (take (length p) s = p)"

text \<open>
  \<open>validateContentType(req, expectedType = 'application/json')\<close>; \<open>None\<close> is the omitted
  argument.
\<close>

definition validateContentType :: "NextRequest \<Rightarrow> string option \<Rightarrow> bool" where
  "validateContentType req expectedType =
     (let expected = (case expectedType of None \<Rightarrow> ''application/json'' | Some t \<Rightarrow> t);
          contentType = headers_get req ''content-type''
      in case contentType of
           None \<Rightarrow> False
         | Some ct \<Rightarrow>
             if \<not> truthy contentType then False
             else startsWith (toLowerCase ct) (toLowerCase expected))"

section \<open>The specification's wording of the helpers\<close>

text \<open>
  Key derivation as the specification words it: the user identifier when present and
  non-empty, else the forwarded-address header when present, else the real-address header
  when present, else the unknown token.
\<close>

definition identify_spec :: "NextRequest \<Rightarrow> string option \<Rightarrow> string" where
  "identify_spec req userId =
     (let byAddress =
            (case headers_get req ''x-forwarded-for'' of
               Some v \<Rightarrow> ''ip:'' @ v
             | None \<Rightarrow>
                 (case headers_get req ''x-real-ip'' of
                    Some v \<Rightarrow> ''ip:'' @ v
                  | None \<Rightarrow> ''ip:unknown''))
      in case userId of
           None \<Rightarrow> byAddress
         | Some u \<Rightarrow> if u \<noteq> [] then ''user:'' @ u else byAddress)"

text \<open>
  Two characters that differ in case only, and a string that starts with another one when
  case is ignored.
\<close>

definition same_ignoring_case :: "char \<Rightarrow> char \<Rightarrow> bool" where
  "same_ignoring_case a b = (toLowerCase_char a = toLowerCase_char b)"

definition starts_with_ignoring_case :: "string \<Rightarrow> string \<Rightarrow> bool" where
  "starts_with_ignoring_case s p =
     (length p \<le> length s \<and> list_all2 same_ignoring_case (take (length p) s) p)"

text \<open>
  The content-type check as the claim words it: false without the header, otherwise the
  case-insensitive prefix test of the header value.
\<close>

definition validateContentType_spec :: "NextRequest \<Rightarrow> string \<Rightarrow> bool" where
  "validateContentType_spec req expectedType =
     (case headers_get req ''content-type'' of
        None \<Rightarrow> False
      | Some ct \<Rightarrow> starts_with_ignoring_case ct expectedType)"

section \<open>Views of the cache\<close>

text \<open>The timestamps stored for a key, whether or not the entry has expired.\<close>

definition stamps_of :: "string \<Rightarrow> LRUCache \<Rightarrow> int list" where
  "stamps_of k c = (case cache_lookup k c of None \<Rightarrow> [] | Some e \<Rightarrow> evalue e)"

text \<open>
  What a read at time \<open>now\<close> would find for a key, without the side effects of the read:
  the live entry, or nothing when the key is missing or has expired.
\<close>

definition cache_peek :: "int \<Rightarrow> int \<Rightarrow> string \<Rightarrow> LRUCache \<Rightarrow> Entry option" where
  "cache_peek ttl now k c =
     (case cache_lookup k c of
        None \<Rightarrow> None
      | Some e \<Rightarrow> if is_stale ttl now e then None else Some e)"

text \<open>
  Every write recorded for key \<open>k\<close> happened at time \<open>T\<close> or earlier, and so did every
  call whose timestamp it stores.
\<close>

definition quiet_since :: "string \<Rightarrow> int \<Rightarrow> LRUCache \<Rightarrow> bool" where
  "quiet_since k T c =
     list_all (\<lambda>e. ekey e = k \<longrightarrow> estart e \<le> T \<and> list_all (\<lambda>ts. ts \<le> T) (evalue e)) c"

section \<open>Order of recency\<close>

text \<open>
  A use of key \<open>k\<close> makes it the most recent of the keys used so far.
\<close>

definition touch :: "string \<Rightarrow> string list \<Rightarrow> string list" where
  "touch k ks = k # removeAll k ks"

text \<open>
  The keys of a sequence of calls, each once, the most recently called first: the order
  by which the specification's least recently used key is the last one.
\<close>

definition recency :: "Call list \<Rightarrow> string list" where
  "recency calls = foldl (\<lambda>ks call. touch (snd (snd call)) ks) [] calls"

text \<open>
  The list \<open>ks\<close> holds keys of the duplicate-free list \<open>order\<close> in the order in which
  \<open>order\<close> has them.
\<close>

definition ordered_by :: "string list \<Rightarrow> string list \<Rightarrow> bool" where
  "ordered_by ks order = (distinct order \<and> ks = filter (\<lambda>k. k \<in> set ks) order)"

section \<open>Facts about the cache\<close>

lemma cache_lookup_SomeD: "cache_lookup k c = Some e \<Longrightarrow> ekey e = k \<and> e \<in> set c"
  unfolding cache_lookup_def by (induction c) (auto split: if_splits)

lemma cache_lookup_Cons:
  "cache_lookup k (e # c) = (if ekey e = k then Some e else cache_lookup k c)"
  by (simp add: cache_lookup_def)

lemma cache_lookup_delete:
  "cache_lookup k' (cache_delete k c) = (if k' = k then None else cache_lookup k' c)"
  unfolding cache_lookup_def cache_delete_def by (induction c) auto

lemma set_cache_delete: "set (cache_delete k c) = {e \<in> set c. ekey e \<noteq> k}"
  by (auto simp: cache_delete_def)

lemma length_cache_delete_le: "length (cache_delete k c) \<le> length c"
  by (simp add: cache_delete_def)

lemma length_cache_delete_less:
  "cache_lookup k c = Some e \<Longrightarrow> length (cache_delete k c) < length c"
  unfolding cache_delete_def
  by (metis (mono_tags, lifting) cache_lookup_SomeD length_filter_less)

lemma cache_lookup_cache_set:
  "cache_lookup k (cache_set m t k v c) = Some \<lparr>ekey = k, evalue = v, estart = t\<rparr>"
  by (simp add: cache_set_def Let_def cache_lookup_Cons split: option.splits)

lemma set_cache_get: "set (snd (cache_get ttl t k c)) \<subseteq> set c"
  by (auto simp: cache_get_def set_cache_delete dest: cache_lookup_SomeD split: option.splits)

lemma cache_get_SomeD:
  "fst (cache_get ttl t k c) = Some vs \<Longrightarrow>
     \<exists>e\<in>set c. ekey e = k \<and> evalue e = vs \<and> \<not> is_stale ttl t e"
  by (auto simp: cache_get_def dest: cache_lookup_SomeD split: option.splits if_splits)

lemma cache_get_live:
  assumes "cache_lookup k c = Some e" and "\<not> is_stale ttl t e"
  shows "fst (cache_get ttl t k c) = Some (evalue e)"
  using assms by (simp add: cache_get_def)

lemma set_cache_set:
  "set (cache_set m t k v c) \<subseteq> insert \<lparr>ekey = k, evalue = v, estart = t\<rparr> (set c)"
  by (auto simp: cache_set_def Let_def set_cache_delete dest: in_set_butlastD split: option.splits)

lemma length_cache_get:
  "length (snd (cache_get ttl t k c)) \<le> length c"
proof (cases "cache_lookup k c")
  case None
  then show ?thesis by (simp add: cache_get_def)
next
  case (Some e)
  from length_cache_delete_less [OF Some] show ?thesis
    using Some by (simp add: cache_get_def)
qed

lemma length_cache_set:
  assumes "0 < m" and "length c \<le> m"
  shows "length (cache_set m t k v c) \<le> m"
proof (cases "cache_lookup k c")
  case None
  then show ?thesis
    using assms by (cases c) (auto simp: cache_set_def Let_def)
next
  case (Some e)
  from length_cache_delete_less [OF Some] show ?thesis
    using Some assms by (simp add: cache_set_def Let_def)
qed

lemma cache_peek_after_get:
  assumes "t \<le> t'"
  shows "cache_peek ttl t' k' (snd (cache_get ttl t k c)) = cache_peek ttl t' k' c"
proof (cases "cache_lookup k c")
  case None
  then show ?thesis by (simp add: cache_get_def)
next
  case (Some e)
  then have key: "ekey e = k" by (simp add: cache_lookup_SomeD)
  show ?thesis
  proof (cases "is_stale ttl t e")
    case True
    then have "is_stale ttl t' e" using assms by (simp add: is_stale_def)
    then show ?thesis
      using Some True by (simp add: cache_get_def cache_peek_def cache_lookup_delete)
  next
    case False
    then show ?thesis
      using Some key by (auto simp: cache_get_def cache_peek_def cache_lookup_Cons cache_lookup_delete)
  qed
qed

lemma quiet_since_iff:
  "quiet_since k T c \<longleftrightarrow>
     (\<forall>e\<in>set c. ekey e = k \<longrightarrow> estart e \<le> T \<and> (\<forall>ts\<in>set (evalue e). ts \<le> T))"
  by (simp add: quiet_since_def list_all_iff)

section \<open>Facts about a single call\<close>

lemma check_success_iff:
  "success (fst (check options t l k c)) \<longleftrightarrow>
     int (length (filter (\<lambda>ts. t - ts < interval options)
        (case fst (cache_get (interval options) t k c) of None \<Rightarrow> [0] | Some ts \<Rightarrow> ts))) < l"
  by (auto simp: check_def Let_def split: prod.splits)

lemma check_denied:
  assumes "\<not> success (fst (check options t l k c))"
  shows "check options t l k c =
           (\<lparr>success = False, remaining = 0\<rparr>, snd (cache_get (interval options) t k c))"
  using assms by (auto simp: check_def Let_def split: prod.splits if_splits)

lemma binary64_round_exact: "\<bar>x\<bar> \<le> 9007199254740992 \<Longrightarrow> binary64_round x = x"
  by (simp add: binary64_round_def)

lemma binary64_round_nonneg: "0 \<le> x \<Longrightarrow> 0 \<le> binary64_round x"
  by (auto simp: binary64_round_def Let_def pos_imp_zdiv_nonneg_iff)

lemma check_allowed:
  assumes "success (fst (check options t l k c))"
  shows "\<exists>ws. t \<in> set ws \<and> int (length ws) \<le> l
           \<and> fst (check options t l k c)
               = \<lparr>success = True, remaining = binary64_round (l - int (length ws))\<rparr>
           \<and> cache_lookup k (snd (check options t l k c))
               = Some \<lparr>ekey = k, evalue = ws, estart = t\<rparr>"
proof -
  obtain hit c1 where g: "cache_get (interval options) t k c = (hit, c1)"
    by (cases "cache_get (interval options) t k c")
  let ?vs = "filter (\<lambda>ts. t - ts < interval options) (case hit of None \<Rightarrow> [0] | Some ts \<Rightarrow> ts)"
  have lt: "int (length ?vs) < l"
    using assms by (simp add: check_success_iff g)
  then have "check options t l k c =
      (\<lparr>success = True, remaining = binary64_round (l - int (length (?vs @ [t])))\<rparr>,
       cache_set (uniqueTokenPerInterval options) t k (?vs @ [t]) c1)"
    by (simp add: check_def g Let_def)
  then show ?thesis
    using lt by (intro exI [of _ "?vs @ [t]"]) (simp add: cache_lookup_cache_set)
qed

lemma check_result_shape:
  "(success (fst (check options t l k c)) \<longrightarrow> 0 \<le> remaining (fst (check options t l k c)))
   \<and> (\<not> success (fst (check options t l k c)) \<longrightarrow> remaining (fst (check options t l k c)) = 0)"
proof (cases "success (fst (check options t l k c))")
  case True
  from check_allowed [OF True] obtain ws where
    "t \<in> set ws \<and> int (length ws) \<le> l
       \<and> fst (check options t l k c)
           = \<lparr>success = True, remaining = binary64_round (l - int (length ws))\<rparr>
       \<and> cache_lookup k (snd (check options t l k c))
           = Some \<lparr>ekey = k, evalue = ws, estart = t\<rparr>" ..
  then show ?thesis
    using binary64_round_nonneg [of "l - int (length ws)"] by simp
next
  case False
  from check_denied [OF False] show ?thesis by simp
qed

lemma check_live_in_window:
  assumes look: "cache_lookup k c = Some e"
    and start: "t - estart e \<le> interval options"
    and vals: "\<forall>ts\<in>set (evalue e). t - ts < interval options"
  shows "check options t limit k c =
           (if limit \<le> int (length (evalue e))
            then (\<lparr>success = False, remaining = 0\<rparr>, e # cache_delete k c)
            else (\<lparr>success = True,
                   remaining = binary64_round (limit - int (length (evalue e)) - 1)\<rparr>,
                  cache_set (uniqueTokenPerInterval options) t k (evalue e @ [t])
                    (e # cache_delete k c)))"
proof -
  have g: "cache_get (interval options) t k c = (Some (evalue e), e # cache_delete k c)"
    using look start by (simp add: cache_get_def is_stale_def)
  have keep: "filter (\<lambda>ts. t - ts < interval options) (evalue e) = evalue e"
    using vals by (simp only: filter_id_conv)
  have "binary64_round (limit - (1 + int (length (evalue e))))
          = binary64_round (limit - int (length (evalue e)) - 1)"
    by (simp add: algebra_simps)
  then show ?thesis
    by (simp add: check_def g Let_def keep)
qed

lemma set_check:
  "set (snd (check options t l k c)) \<subseteq>
     set c \<union> {\<lparr>ekey = k,
                evalue = filter (\<lambda>ts. t - ts < interval options)
                   (case fst (cache_get (interval options) t k c) of None \<Rightarrow> [0] | Some ts \<Rightarrow> ts) @ [t],
                estart = t\<rparr>}"
proof -
  obtain hit c1 where g: "cache_get (interval options) t k c = (hit, c1)"
    by (cases "cache_get (interval options) t k c")
  have c1: "set c1 \<subseteq> set c"
    using set_cache_get [of "interval options" t k c] g by simp
  show ?thesis
    using c1 set_cache_set [of "uniqueTokenPerInterval options" t k _ c1]
    by (auto simp: check_def g Let_def)
qed

lemma run_append:
  "run options (xs @ ys) c =
     (let (rs, c1) = run options xs c; (rs', c2) = run options ys c1 in (rs @ rs', c2))"
  by (induction xs arbitrary: c) (auto split: prod.splits)

lemma run_snoc:
  "fst (run options (xs @ [(t, l, k)]) c) =
     fst (run options xs c) @ [fst (check options t l k (snd (run options xs c)))]"
  by (simp add: run_append split: prod.splits)

section \<open>Non-positive limits\<close>

text \<open>
  C7. For every token, every cache and every limit that is zero or negative, \<open>check\<close>
  denies the call: the number of timestamps left after pruning is at least zero, hence at
  least the limit.
\<close>

theorem check_nonpositive_limit_denies:
  assumes "limit \<le> 0"
  shows "fst (check options currentTime limit token tokenCache) = \<lparr>success = False, remaining = 0\<rparr>"
proof -
  obtain hit cache1 where g: "cache_get (interval options) currentTime token tokenCache = (hit, cache1)"
    by (cases "cache_get (interval options) currentTime token tokenCache")
  have "limit \<le> int (length xs)" for xs :: "int list"
    using assms by linarith
  then show ?thesis
    by (simp add: check_def g Let_def)
qed

theorem check_nonpositive_limit_denies_witness:
  "(0::int) \<le> 0 \<and>
   fst (check \<lparr>interval = 60000, uniqueTokenPerInterval = 500\<rparr> 1700000000000 0 ''user:u1'' [])
     = \<lparr>success = False, remaining = 0\<rparr>"
  using check_nonpositive_limit_denies [of 0 "\<lparr>interval = 60000, uniqueTokenPerInterval = 500\<rparr>"
      1700000000000 "''user:u1''" "[]"]
  by simp

section \<open>The first call of an unseen key\<close>

lemma first_check_unseen:
  assumes "cache_lookup k c = None" and "interval options \<le> t" and "0 < limit"
  shows "check options t limit k c =
           (\<lparr>success = True, remaining = binary64_round (limit - 1)\<rparr>,
            cache_set (uniqueTokenPerInterval options) t k [t] c)"
  using assms by (simp add: check_def binary64_round_def cache_get_def Let_def)

text \<open>
  C5. A key that is absent from the cache is given the one-element sequence \<open>[0]\<close>, and
  that zero is meant never to count as a call. The pruning test \<open>currentTime - 0 < interval\<close>
  keeps it whenever the window is longer than the clock reading, and it is then counted:
  with a window of 2000000000000 ms, limit 1 and a clock reading taken in 2026, the first
  call of an unseen key on an empty cache is denied and nothing is stored. The lemma
  \<open>first_check_unseen\<close> above shows the intended result whenever the window is not longer
  than the clock reading.
\<close>

theorem sentinel_counted_on_first_check:
  "check \<lparr>interval = 2000000000000, uniqueTokenPerInterval = 500\<rparr> 1793000000000 1 ''user:a'' []
     = (\<lparr>success = False, remaining = 0\<rparr>, [])"
  by (simp add: check_def binary64_round_def cache_get_def cache_lookup_def Let_def)

section \<open>A burst of calls\<close>

lemma upt_Suc_shift: "map f [0..<Suc n] = f 0 # map (\<lambda>i. f (Suc i)) [0..<n]"
  by (simp only: upt_conv_Cons [of 0 "Suc n"] zero_less_Suc if_True list.map
      map_Suc_upt [symmetric] map_map comp_def)

lemma burst_on_live_key:
  assumes "cache_lookup k c = Some e"
    and "t0 \<le> estart e" and "\<forall>ts\<in>set (evalue e). t0 \<le> ts"
    and "\<forall>t\<in>set tms. t0 \<le> t \<and> t - t0 < interval options"
  shows "fst (run options (map (\<lambda>t. (t, limit, k)) tms) c) =
           map (\<lambda>i. if int (length (evalue e) + i) < limit
                    then \<lparr>success = True, remaining = binary64_round (limit - int (length (evalue e) + i) - 1)\<rparr>
                    else \<lparr>success = False, remaining = 0\<rparr>) [0..<length tms]"
  using assms
proof (induction tms arbitrary: c e)
  case Nil
  then show ?case by simp
next
  case (Cons t tms)
  have key: "ekey e = k" using Cons.prems(1) by (simp add: cache_lookup_SomeD)
  have t0: "t0 \<le> t" and tw: "t - t0 < interval options"
    using Cons.prems(4) by auto
  have start: "t - estart e \<le> interval options"
    using Cons.prems(2) tw by auto
  have vals: "\<forall>ts\<in>set (evalue e). t - ts < interval options"
    using Cons.prems(3) tw by auto
  have rest: "\<forall>t\<in>set tms. t0 \<le> t \<and> t - t0 < interval options"
    using Cons.prems(4) by simp
  note step = check_live_in_window [OF Cons.prems(1) start vals, of limit]
  show ?case
  proof (cases "limit \<le> int (length (evalue e))")
    case True
    have look': "cache_lookup k (e # cache_delete k c) = Some e"
      using key by (simp add: cache_lookup_Cons)
    have "fst (run options (map (\<lambda>t. (t, limit, k)) tms) (e # cache_delete k c)) =
           map (\<lambda>i. if int (length (evalue e) + i) < limit
                    then \<lparr>success = True, remaining = binary64_round (limit - int (length (evalue e) + i) - 1)\<rparr>
                    else \<lparr>success = False, remaining = 0\<rparr>) [0..<length tms]"
      using Cons.prems(2,3) rest by (rule Cons.IH [OF look'])
    also have "\<dots> = map (\<lambda>i. if int (length (evalue e) + Suc i) < limit
                    then \<lparr>success = True, remaining = binary64_round (limit - int (length (evalue e) + Suc i) - 1)\<rparr>
                    else \<lparr>success = False, remaining = 0\<rparr>) [0..<length tms]"
      using True by simp
    finally show ?thesis
      using True by (simp add: step case_prod_beta upt_Suc_shift del: upt_Suc)
  next
    case False
    let ?e' = "\<lparr>ekey = k, evalue = evalue e @ [t], estart = t\<rparr>"
    let ?c' = "cache_set (uniqueTokenPerInterval options) t k (evalue e @ [t]) (e # cache_delete k c)"
    have look': "cache_lookup k ?c' = Some ?e'"
      by (rule cache_lookup_cache_set)
    have "fst (run options (map (\<lambda>t. (t, limit, k)) tms) ?c') =
           map (\<lambda>i. if int (length (evalue ?e') + i) < limit
                    then \<lparr>success = True, remaining = binary64_round (limit - int (length (evalue ?e') + i) - 1)\<rparr>
                    else \<lparr>success = False, remaining = 0\<rparr>) [0..<length tms]"
      using t0 Cons.prems(3) rest by (intro Cons.IH [OF look']) auto
    also have "\<dots> = map (\<lambda>i. if int (length (evalue e) + Suc i) < limit
                    then \<lparr>success = True, remaining = binary64_round (limit - int (length (evalue e) + Suc i) - 1)\<rparr>
                    else \<lparr>success = False, remaining = 0\<rparr>) [0..<length tms]"
      by simp
    finally show ?thesis
      using False by (simp add: step case_prod_beta upt_Suc_shift del: upt_Suc)
  qed
qed

lemma burst_on_unseen_key:
  assumes absent: "cache_lookup k c = None"
    and pruned: "interval options \<le> t1"
    and limit: "0 < limit"
    and window: "\<forall>t\<in>set tms. t1 \<le> t \<and> t - t1 < interval options"
  shows "fst (run options (map (\<lambda>t. (t, limit, k)) (t1 # tms)) c) =
           map (\<lambda>i. if int i < limit
                    then \<lparr>success = True, remaining = binary64_round (limit - int i - 1)\<rparr>
                    else \<lparr>success = False, remaining = 0\<rparr>) [0..<Suc (length tms)]"
proof -
  let ?e = "\<lparr>ekey = k, evalue = [t1], estart = t1\<rparr>"
  let ?c = "cache_set (uniqueTokenPerInterval options) t1 k [t1] c"
  have look: "cache_lookup k ?c = Some ?e"
    by (rule cache_lookup_cache_set)
  have "fst (run options (map (\<lambda>t. (t, limit, k)) tms) ?c) =
           map (\<lambda>i. if int (length (evalue ?e) + i) < limit
                    then \<lparr>success = True, remaining = binary64_round (limit - int (length (evalue ?e) + i) - 1)\<rparr>
                    else \<lparr>success = False, remaining = 0\<rparr>) [0..<length tms]"
    using window by (intro burst_on_live_key [OF look]) auto
  also have "\<dots> = map (\<lambda>i. if int (Suc i) < limit
                    then \<lparr>success = True, remaining = binary64_round (limit - int (Suc i) - 1)\<rparr>
                    else \<lparr>success = False, remaining = 0\<rparr>) [0..<length tms]"
    by simp
  finally show ?thesis
    using limit by (simp add: first_check_unseen [OF absent pruned limit] case_prod_beta
        upt_Suc_shift del: upt_Suc)
qed

lemma burst_admits_exactly_limit:
  assumes "cache_lookup k c = None" and "interval options \<le> t1" and "0 < limit"
    and "\<forall>t\<in>set tms. t1 \<le> t \<and> t - t1 < interval options"
    and "int (length tms) = limit"
  shows "map success (fst (run options (map (\<lambda>t. (t, limit, k)) (t1 # tms)) c))
           = replicate (nat limit) True @ [False]"
proof -
  have "map success (fst (run options (map (\<lambda>t. (t, limit, k)) (t1 # tms)) c))
          = map (\<lambda>i. int i < limit) [0..<Suc (length tms)]"
    by (simp only: burst_on_unseen_key [OF assms(1-4)] map_map comp_def if_distrib [of success]
        CheckResult.simps if_bool_eq_conj) simp
  also have "\<dots> = map (\<lambda>i. True) [0..<length tms] @ [False]"
    using assms(5) by simp
  also have "\<dots> = replicate (nat limit) True @ [False]"
    using assms(5) by (simp add: map_replicate_const)
  finally show ?thesis .
qed

text \<open>
  C1. For a limit above zero and an unseen key, consecutive calls that all fall within one
  window of the first are meant to be allowed \<open>limit\<close> times and denied from then on. When
  the window is longer than the clock reading the zero sentinel takes one of the places:
  with limit 2 only the first of three calls is allowed. The lemma
  \<open>burst_admits_exactly_limit\<close> above shows the intended count whenever the window is not
  longer than the first clock reading.
\<close>

theorem sentinel_counted_in_burst:
  "map success (fst (run \<lparr>interval = 2000000000000, uniqueTokenPerInterval = 500\<rparr>
      [(1793000000000, 2, ''user:a''), (1793000000001, 2, ''user:a''),
       (1793000000002, 2, ''user:a'')] []))
   = [True, False, False]"
  by (simp add: check_def binary64_round_def cache_get_def cache_set_def cache_lookup_def cache_delete_def
      is_stale_def Let_def)

section \<open>The remaining count\<close>

lemma find_butlast: "find P (butlast xs) = find P xs \<or> find P (butlast xs) = None"
  by (induction xs) auto

lemma cache_lookup_butlast:
  "cache_lookup k (butlast c) = cache_lookup k c \<or> cache_lookup k (butlast c) = None"
  unfolding cache_lookup_def by (rule find_butlast)

lemma cache_lookup_get_other:
  assumes "k' \<noteq> k"
  shows "cache_lookup k (snd (cache_get ttl t k' c)) = cache_lookup k c"
proof (cases "cache_lookup k' c")
  case None
  then show ?thesis by (simp add: cache_get_def)
next
  case (Some e)
  then have "ekey e = k'" by (simp add: cache_lookup_SomeD)
  then show ?thesis
    using Some assms by (simp add: cache_get_def cache_lookup_Cons cache_lookup_delete)
qed

lemma cache_lookup_set_other:
  assumes "k' \<noteq> k"
  shows "cache_lookup k (cache_set m t k' v c) = cache_lookup k c
       \<or> cache_lookup k (cache_set m t k' v c) = None"
  using assms cache_lookup_butlast [of k c]
  by (auto simp: cache_set_def Let_def cache_lookup_Cons cache_lookup_delete split: option.splits)

text \<open>
  A call of another key leaves the entry of a key as it is, unless it evicts it.
\<close>

lemma check_other_key_lookup:
  assumes "k' \<noteq> k"
  shows "cache_lookup k (snd (check options t l k' c)) = cache_lookup k c
       \<or> cache_lookup k (snd (check options t l k' c)) = None"
proof -
  obtain hit c1 where g: "cache_get (interval options) t k' c = (hit, c1)"
    by (cases "cache_get (interval options) t k' c")
  have c1: "cache_lookup k c1 = cache_lookup k c"
    using cache_lookup_get_other [OF assms, of "interval options" t c] g by simp
  show ?thesis
    using c1 cache_lookup_set_other [OF assms, of "uniqueTokenPerInterval options" t _ c1]
    by (auto simp: check_def g Let_def)
qed

text \<open>
  C4, as stated, fails twice. The window slides, so two successive allowed calls need not
  report decreasing counts: with limit 1 and a window of 60000 ms, calls 60000 ms apart
  are both allowed and both report 0 remaining. And the count is computed in the number
  type: with the limit \<open>2^53 + 2\<close> two successive allowed calls, one second apart, both
  report \<open>2^53\<close> remaining.
\<close>

theorem remaining_repeats_counterexample:
  "fst (run \<lparr>interval = 60000, uniqueTokenPerInterval = 500\<rparr>
      [(1700000000000, 1, ''user:a''), (1700000060000, 1, ''user:a'')] [])
   = [\<lparr>success = True, remaining = 0\<rparr>, \<lparr>success = True, remaining = 0\<rparr>]
   \<and> fst (run \<lparr>interval = 60000, uniqueTokenPerInterval = 500\<rparr>
      [(1700000000000, 9007199254740994, ''user:a''),
       (1700000001000, 9007199254740994, ''user:a'')] [])
   = [\<lparr>success = True, remaining = 9007199254740992\<rparr>,
      \<lparr>success = True, remaining = 9007199254740992\<rparr>]"
  by (simp add: check_def binary64_round_def bit_length.simps cache_get_def cache_set_def
      cache_lookup_def cache_delete_def is_stale_def Let_def)

text \<open>
  C4, amended. The remaining count is at least zero on an allowed call and exactly zero on
  a denied one. When a call of a key is allowed and a later call of the same key with the
  same limit, a limit of at most \<open>2^53\<close>, is allowed too, the cache then holding for the
  key the entry that the first call wrote (calls of other keys and denied calls of the key
  may lie between, an allowed call of the key, an eviction or an expiry may not) and every
  timestamp of that entry being still inside the window, the later call reports exactly
  one less than the first.
\<close>

theorem remaining_counts_down_within_window:
  assumes first: "check options t1 limit token c = (r1, c1)"
    and kept: "cache_lookup token c' = cache_lookup token c1"
    and second: "check options t2 limit token c' = (r2, c2)"
  shows "(success r1 \<longrightarrow> 0 \<le> remaining r1) \<and> (\<not> success r1 \<longrightarrow> remaining r1 = 0)
       \<and> (success r1 \<and> success r2 \<and> limit \<le> 9007199254740992
            \<and> (\<forall>ts\<in>set (stamps_of token c'). t2 - ts < interval options)
          \<longrightarrow> remaining r2 = remaining r1 - 1)"
proof -
  have shape: "(success r1 \<longrightarrow> 0 \<le> remaining r1) \<and> (\<not> success r1 \<longrightarrow> remaining r1 = 0)"
    using check_result_shape [of options t1 limit token c] first by simp
  have step: "remaining r2 = remaining r1 - 1"
    if s1: "success r1" and s2: "success r2" and small: "limit \<le> 9007199254740992"
      and win: "\<forall>ts\<in>set (stamps_of token c'). t2 - ts < interval options"
  proof -
    from s1 first have "success (fst (check options t1 limit token c))" by simp
    from check_allowed [OF this] first obtain ws where
      mem: "t1 \<in> set ws"
      and r1: "r1 = \<lparr>success = True, remaining = binary64_round (limit - int (length ws))\<rparr>"
      and look1: "cache_lookup token c1 = Some \<lparr>ekey = token, evalue = ws, estart = t1\<rparr>"
      by auto
    from look1 kept
    have look: "cache_lookup token c' = Some \<lparr>ekey = token, evalue = ws, estart = t1\<rparr>"
      by simp
    from look win have all: "\<forall>ts\<in>set ws. t2 - ts < interval options"
      by (simp add: stamps_of_def)
    with mem have "\<not> is_stale (interval options) t2 \<lparr>ekey = token, evalue = ws, estart = t1\<rparr>"
      by (auto simp: is_stale_def)
    from cache_get_live [OF look this]
    have hit: "fst (cache_get (interval options) t2 token c') = Some ws" by simp
    have keep: "filter (\<lambda>ts. t2 - ts < interval options) ws = ws"
      using all by (simp only: filter_id_conv)
    from s2 second have s2': "success (fst (check options t2 limit token c'))" by simp
    obtain hit2 c1' where g: "cache_get (interval options) t2 token c' = (hit2, c1')"
      by (cases "cache_get (interval options) t2 token c'")
    with hit have h2: "hit2 = Some ws" by simp
    have lt: "int (length ws) < limit"
      using s2' by (simp add: check_success_iff hit keep)
    have "fst (check options t2 limit token c')
            = \<lparr>success = True, remaining = binary64_round (limit - int (length (ws @ [t2])))\<rparr>"
      using lt by (simp add: check_def g h2 Let_def keep)
    with second
    have r2: "remaining r2 = binary64_round (limit - int (length ws) - 1)"
      by (simp add: algebra_simps)
    have e1: "binary64_round (limit - int (length ws)) = limit - int (length ws)"
      using lt small by (intro binary64_round_exact) simp
    have e2: "binary64_round (limit - int (length ws) - 1) = limit - int (length ws) - 1"
      using lt small by (intro binary64_round_exact) simp
    from r1 r2 e1 e2 show ?thesis by simp
  qed
  from shape step show ?thesis by blast
qed

theorem remaining_counts_down_within_window_witness:
  "map remaining (fst (run \<lparr>interval = 60000, uniqueTokenPerInterval = 500\<rparr>
      [(1700000000000, 3, ''user:a''), (1700000001000, 3, ''user:b''),
       (1700000002000, 3, ''user:a'')] [])) = [2, 2, 1]"
proof -
  let ?o = "\<lparr>interval = 60000, uniqueTokenPerInterval = 500\<rparr>"
  let ?a = "\<lparr>ekey = ''user:a'', evalue = [1700000000000], estart = 1700000000000\<rparr>"
  let ?b = "\<lparr>ekey = ''user:b'', evalue = [1700000001000], estart = 1700000001000\<rparr>"
  let ?a' = "\<lparr>ekey = ''user:a'', evalue = [1700000000000, 1700000002000],
              estart = 1700000002000\<rparr>"
  have a: "check ?o 1700000000000 3 ''user:a'' [] = (\<lparr>success = True, remaining = 2\<rparr>, [?a])"
    by (simp add: check_def binary64_round_def cache_get_def cache_set_def cache_lookup_def
        cache_delete_def is_stale_def Let_def)
  have b: "check ?o 1700000001000 3 ''user:b'' [?a] = (\<lparr>success = True, remaining = 2\<rparr>, [?b, ?a])"
    by (simp add: check_def binary64_round_def cache_get_def cache_set_def cache_lookup_def
        cache_delete_def is_stale_def Let_def)
  have c: "check ?o 1700000002000 3 ''user:a'' [?b, ?a]
             = (\<lparr>success = True, remaining = 1\<rparr>, [?a', ?b])"
    by (simp add: check_def binary64_round_def cache_get_def cache_set_def cache_lookup_def
        cache_delete_def is_stale_def Let_def)
  have kept: "cache_lookup ''user:a'' [?b, ?a] = cache_lookup ''user:a'' [?a]"
    by (simp add: cache_lookup_def)
  have w: "\<forall>ts\<in>set (stamps_of ''user:a'' [?b, ?a]). 1700000002000 - ts < interval ?o"
    by (simp add: stamps_of_def cache_lookup_def)
  from remaining_counts_down_within_window [OF a kept c] w
  have "remaining \<lparr>success = True, remaining = 1\<rparr> = remaining \<lparr>success = True, remaining = 2\<rparr> - 1"
    by simp
  then show ?thesis
    using a b c by simp
qed

section \<open>A denied call\<close>

text \<open>
  C3, as stated, fails: a denied call writes no timestamps, but its read makes the key
  the most recently used one, so the cache after the call differs from the cache before
  it. The difference shows later: with room for two keys, a denied call of \<open>user:a\<close>
  makes the next new key evict \<open>user:b\<close> in place of \<open>user:a\<close>, and the following call of
  \<open>user:a\<close> is denied where it would have been allowed.
\<close>

theorem denied_check_changes_recency_counterexample:
  "fst (check \<lparr>interval = 60000, uniqueTokenPerInterval = 2\<rparr> 1700000030000 1 ''user:a''
          [\<lparr>ekey = ''user:b'', evalue = [1700000020000], estart = 1700000020000\<rparr>,
           \<lparr>ekey = ''user:a'', evalue = [1700000010000], estart = 1700000010000\<rparr>])
     = \<lparr>success = False, remaining = 0\<rparr>
   \<and> snd (check \<lparr>interval = 60000, uniqueTokenPerInterval = 2\<rparr> 1700000030000 1 ''user:a''
          [\<lparr>ekey = ''user:b'', evalue = [1700000020000], estart = 1700000020000\<rparr>,
           \<lparr>ekey = ''user:a'', evalue = [1700000010000], estart = 1700000010000\<rparr>])
     \<noteq> [\<lparr>ekey = ''user:b'', evalue = [1700000020000], estart = 1700000020000\<rparr>,
         \<lparr>ekey = ''user:a'', evalue = [1700000010000], estart = 1700000010000\<rparr>]
   \<and> map success (fst (run \<lparr>interval = 60000, uniqueTokenPerInterval = 2\<rparr>
          [(1700000010000, 1, ''user:a''), (1700000020000, 1, ''user:b''),
           (1700000030000, 1, ''user:a''),
           (1700000040000, 1, ''user:c''), (1700000050000, 1, ''user:a'')] []))
     = [True, True, False, True, False]
   \<and> map success (fst (run \<lparr>interval = 60000, uniqueTokenPerInterval = 2\<rparr>
          [(1700000010000, 1, ''user:a''), (1700000020000, 1, ''user:b''),
           (1700000040000, 1, ''user:c''), (1700000050000, 1, ''user:a'')] []))
     = [True, True, True, True]"
  by (simp add: check_def binary64_round_def cache_get_def cache_set_def cache_lookup_def cache_delete_def
      is_stale_def Let_def)

text \<open>
  C3, amended. When the pruned sequence has at least \<open>limit\<close> elements, that is, when
  the call is denied, \<open>check\<close> returns \<open>allowed = false\<close> and \<open>remaining = 0\<close> and calls
  no \<open>set\<close>: the cache is left as the read alone leaves it, and at the time of the call
  and at every later time each key has the same live entry, with the same timestamps and
  the same time of last write, as before the call. The rejected call is not recorded.
\<close>

theorem denied_check_frame:
  assumes "\<not> success (fst (check options t l k c))"
  shows "fst (check options t l k c) = \<lparr>success = False, remaining = 0\<rparr>
       \<and> snd (check options t l k c) = snd (cache_get (interval options) t k c)
       \<and> (t \<le> t' \<longrightarrow>
            cache_peek (interval options) t' k' (snd (check options t l k c))
              = cache_peek (interval options) t' k' c)"
  using check_denied [OF assms] by (simp add: cache_peek_after_get)

theorem denied_check_frame_witness:
  "\<not> success (fst (check \<lparr>interval = 60000, uniqueTokenPerInterval = 2\<rparr> 1700000030000 1 ''user:a''
          [\<lparr>ekey = ''user:b'', evalue = [1700000020000], estart = 1700000020000\<rparr>,
           \<lparr>ekey = ''user:a'', evalue = [1700000010000], estart = 1700000010000\<rparr>]))
   \<and> cache_peek 60000 1700000040000 ''user:a''
        (snd (check \<lparr>interval = 60000, uniqueTokenPerInterval = 2\<rparr> 1700000030000 1 ''user:a''
          [\<lparr>ekey = ''user:b'', evalue = [1700000020000], estart = 1700000020000\<rparr>,
           \<lparr>ekey = ''user:a'', evalue = [1700000010000], estart = 1700000010000\<rparr>]))
      = Some \<lparr>ekey = ''user:a'', evalue = [1700000010000], estart = 1700000010000\<rparr>"
proof -
  have d: "\<not> success (fst (check \<lparr>interval = 60000, uniqueTokenPerInterval = 2\<rparr> 1700000030000 1 ''user:a''
          [\<lparr>ekey = ''user:b'', evalue = [1700000020000], estart = 1700000020000\<rparr>,
           \<lparr>ekey = ''user:a'', evalue = [1700000010000], estart = 1700000010000\<rparr>]))"
    by (simp add: check_def binary64_round_def cache_get_def cache_lookup_def cache_delete_def is_stale_def Let_def)
  show ?thesis
    using d denied_check_frame [OF d, of 1700000040000 "''user:a''"]
    by (simp add: check_def binary64_round_def cache_get_def cache_peek_def cache_lookup_def cache_delete_def
        is_stale_def Let_def)
qed

section \<open>A key left alone for longer than the window\<close>

lemma check_quiet:
  assumes q: "quiet_since k T c" and T: "0 \<le> T" and ok: "k' \<noteq> k \<or> t \<le> T"
  shows "quiet_since k T (snd (check options t l k' c))"
  unfolding quiet_since_iff
proof (intro ballI impI)
  fix e assume e: "e \<in> set (snd (check options t l k' c))" and key: "ekey e = k"
  let ?vs = "case fst (cache_get (interval options) t k' c) of None \<Rightarrow> [0] | Some ts \<Rightarrow> ts"
  let ?new = "\<lparr>ekey = k', evalue = filter (\<lambda>ts. t - ts < interval options) ?vs @ [t], estart = t\<rparr>"
  from e set_check [of options t l k' c] have "e \<in> set c \<or> e = ?new" by auto
  then show "estart e \<le> T \<and> (\<forall>ts\<in>set (evalue e). ts \<le> T)"
  proof
    assume "e \<in> set c"
    with q key show ?thesis by (simp add: quiet_since_iff)
  next
    assume new: "e = ?new"
    with key have kk: "k' = k" by simp
    with ok have tT: "t \<le> T" by simp
    have "\<forall>ts\<in>set ?vs. ts \<le> T"
    proof (cases "fst (cache_get (interval options) t k' c)")
      case None
      then show ?thesis using T by simp
    next
      case (Some vs)
      then obtain e' where "e' \<in> set c" "ekey e' = k'" "evalue e' = vs"
        using cache_get_SomeD by blast
      with q kk have "\<forall>ts\<in>set vs. ts \<le> T" by (auto simp: quiet_since_iff)
      with Some show ?thesis by simp
    qed
    with new tT show ?thesis by auto
  qed
qed

lemma run_quiet:
  assumes "quiet_since k T c" and "0 \<le> T"
    and "\<forall>x\<in>set calls. snd (snd x) \<noteq> k \<or> fst x \<le> T"
  shows "quiet_since k T (snd (run options calls c))"
  using assms
proof (induction calls arbitrary: c)
  case Nil
  then show ?case by simp
next
  case (Cons x calls)
  obtain t l k' where x: "x = (t, l, k')" by (cases x)
  have "quiet_since k T (snd (check options t l k' c))"
    using Cons.prems x by (intro check_quiet) auto
  then have "quiet_since k T (snd (run options calls (snd (check options t l k' c))))"
    using Cons.prems by (intro Cons.IH) auto
  then show ?case
    by (simp add: x case_prod_beta)
qed

lemma allowed_after_quiet:
  assumes q: "quiet_since k T c" and T: "0 \<le> T"
    and gap: "interval options < tn - T" and l: "0 < limit"
  shows "success (fst (check options tn limit k c))"
proof -
  let ?vs = "case fst (cache_get (interval options) tn k c) of None \<Rightarrow> [0] | Some ts \<Rightarrow> ts"
  have "\<forall>ts\<in>set ?vs. ts \<le> T"
  proof (cases "fst (cache_get (interval options) tn k c)")
    case None
    then show ?thesis using T by simp
  next
    case (Some vs)
    then obtain e' where "e' \<in> set c" "ekey e' = k" "evalue e' = vs"
      using cache_get_SomeD by blast
    with q have "\<forall>ts\<in>set vs. ts \<le> T" by (auto simp: quiet_since_iff)
    with Some show ?thesis by simp
  qed
  then have "\<forall>ts\<in>set ?vs. \<not> tn - ts < interval options"
    using gap by auto
  then have "filter (\<lambda>ts. tn - ts < interval options) ?vs = []"
    by (simp add: filter_empty_conv)
  then show ?thesis
    using l by (simp add: check_success_iff)
qed

text \<open>
  C8. On a fresh limiter, let the last call of a key be denied at time \<open>td\<close>, let only
  other keys be called after it, and let the key be called again, with a limit above zero,
  more than \<open>interval\<close> milliseconds after \<open>td\<close>. Then that call is allowed. Clock readings
  are milliseconds since the epoch, so \<open>td\<close> is not negative, and no call before \<open>td\<close>
  carries a later reading.
\<close>

theorem exhausted_key_allowed_after_interval:
  assumes "\<forall>x\<in>set pre. fst x \<le> td" and "0 \<le> td"
    and "\<not> success (last (fst (run options (pre @ [(td, ld, k)]) [])))"
    and "\<forall>x\<in>set mid. snd (snd x) \<noteq> k"
    and "interval options < tn - td"
    and "0 < limit"
  shows "success (last (fst (run options (pre @ [(td, ld, k)] @ mid @ [(tn, limit, k)]) [])))"
proof -
  let ?before = "pre @ [(td, ld, k)] @ mid"
  have "\<forall>x\<in>set ?before. snd (snd x) \<noteq> k \<or> fst x \<le> td"
    using assms(1,4) by auto
  then have "quiet_since k td (snd (run options ?before []))"
    using assms(2) by (intro run_quiet) (simp_all add: quiet_since_def)
  then have "success (fst (check options tn limit k (snd (run options ?before []))))"
    using assms(2,5,6) by (rule allowed_after_quiet)
  moreover have "pre @ [(td, ld, k)] @ mid @ [(tn, limit, k)] = ?before @ [(tn, limit, k)]"
    by simp
  ultimately show ?thesis
    by (simp only: run_snoc last_snoc)
qed

theorem exhausted_key_allowed_after_interval_witness:
  "map success (fst (run \<lparr>interval = 60000, uniqueTokenPerInterval = 500\<rparr>
      ([(1700000000000, 2, ''user:a''), (1700000001000, 2, ''user:a'')]
        @ [(1700000002000, 2, ''user:a'')]
        @ [(1700000030000, 2, ''user:b'')]
        @ [(1700000062001, 2, ''user:a'')]) []))
   = [True, True, False, True, True]"
proof -
  have denied: "\<not> success (last (fst (run \<lparr>interval = 60000, uniqueTokenPerInterval = 500\<rparr>
      ([(1700000000000, 2, ''user:a''), (1700000001000, 2, ''user:a'')]
        @ [(1700000002000, 2, ''user:a'')]) [])))"
    by (simp add: check_def binary64_round_def cache_get_def cache_set_def cache_lookup_def cache_delete_def
        is_stale_def Let_def)
  have "success (last (fst (run \<lparr>interval = 60000, uniqueTokenPerInterval = 500\<rparr>
      ([(1700000000000, 2, ''user:a''), (1700000001000, 2, ''user:a'')]
        @ [(1700000002000, 2, ''user:a'')]
        @ [(1700000030000, 2, ''user:b'')]
        @ [(1700000062001, 2, ''user:a'')]) [])))"
    using denied
    by (intro exhausted_key_allowed_after_interval) simp_all
  then show ?thesis
    by (simp add: check_def binary64_round_def cache_get_def cache_set_def cache_lookup_def cache_delete_def
        is_stale_def Let_def)
qed

section \<open>Capacity and expiry of the cache\<close>

lemma length_check:
  assumes "0 < uniqueTokenPerInterval options" and "length c \<le> uniqueTokenPerInterval options"
  shows "length (snd (check options t l k c)) \<le> uniqueTokenPerInterval options"
proof -
  obtain hit c1 where g: "cache_get (interval options) t k c = (hit, c1)"
    by (cases "cache_get (interval options) t k c")
  have "length c1 \<le> length c"
    using length_cache_get [of "interval options" t k c] g by simp
  with assms(2) have c1: "length c1 \<le> uniqueTokenPerInterval options" by simp
  show ?thesis
    using c1 length_cache_set [OF assms(1) c1] by (simp add: check_def g Let_def)
qed

lemma length_run:
  assumes "0 < uniqueTokenPerInterval options" and "length c \<le> uniqueTokenPerInterval options"
  shows "length (snd (run options calls c)) \<le> uniqueTokenPerInterval options"
  using assms(2)
proof (induction calls arbitrary: c)
  case Nil
  then show ?case by simp
next
  case (Cons x calls)
  obtain t l k where x: "x = (t, l, k)" by (cases x)
  have "length (snd (check options t l k c)) \<le> uniqueTokenPerInterval options"
    using assms(1) Cons.prems by (rule length_check)
  then have "length (snd (run options calls (snd (check options t l k c))))
               \<le> uniqueTokenPerInterval options"
    by (rule Cons.IH)
  then show ?case by (simp add: x case_prod_beta)
qed

lemma check_stale_as_absent:
  assumes "cache_lookup k c = Some e" and "is_stale (interval options) t e"
  shows "check options t l k c = check options t l k (cache_delete k c)"
proof -
  have "cache_get (interval options) t k c = (None, cache_delete k c)"
    using assms by (simp add: cache_get_def)
  moreover have "cache_get (interval options) t k (cache_delete k c) = (None, cache_delete k c)"
    by (simp add: cache_get_def cache_lookup_delete)
  ultimately show ?thesis by (simp add: check_def)
qed

subsection \<open>Reads and writes keep the cache in order of recency\<close>

lemma ordered_byI:
  "distinct order \<Longrightarrow> filter (\<lambda>k. k \<in> set ks) order = ks \<Longrightarrow> ordered_by ks order"
  unfolding ordered_by_def by (intro conjI) (assumption, rule sym)

lemma ordered_byD:
  assumes "ordered_by ks order"
  shows "distinct order" and "filter (\<lambda>k. k \<in> set ks) order = ks"
  using assms unfolding ordered_by_def by (blast, metis)

lemma filter_removeAll_absent:
  "k \<notin> S \<Longrightarrow> filter (\<lambda>x. x \<in> S) (removeAll k xs) = filter (\<lambda>x. x \<in> S) xs"
  by (induction xs) auto

lemma ordered_by_removeAll:
  assumes "ordered_by ks order"
  shows "ordered_by (removeAll k ks) order"
proof (rule ordered_byI)
  show "distinct order" using assms by (rule ordered_byD)
  have "filter (\<lambda>x. x \<in> set (removeAll k ks)) order
          = filter (\<lambda>x. x \<noteq> k) (filter (\<lambda>x. x \<in> set ks) order)"
    by (induction order) auto
  also have "\<dots> = filter (\<lambda>x. x \<noteq> k) ks"
    by (simp only: ordered_byD(2) [OF assms])
  also have "\<dots> = removeAll k ks"
    by (induction ks) auto
  finally show "filter (\<lambda>x. x \<in> set (removeAll k ks)) order = removeAll k ks" .
qed

lemma ordered_by_touch_absent:
  assumes "ordered_by ks order" and "k \<notin> set ks"
  shows "ordered_by ks (touch k order)"
proof (rule ordered_byI)
  show "distinct (touch k order)"
    using ordered_byD(1) [OF assms(1)] by (simp add: touch_def distinct_removeAll)
  have "filter (\<lambda>x. x \<in> set ks) (touch k order) = filter (\<lambda>x. x \<in> set ks) (removeAll k order)"
    using assms(2) by (simp add: touch_def)
  also have "\<dots> = filter (\<lambda>x. x \<in> set ks) order"
    using assms(2) by (rule filter_removeAll_absent)
  also have "\<dots> = ks"
    using assms(1) by (rule ordered_byD)
  finally show "filter (\<lambda>x. x \<in> set ks) (touch k order) = ks" .
qed

lemma ordered_by_Cons_touch:
  assumes "ordered_by ks order" and "k \<notin> set ks"
  shows "ordered_by (k # ks) (touch k order)"
proof (rule ordered_byI)
  show "distinct (touch k order)"
    using ordered_byD(1) [OF assms(1)] by (simp add: touch_def distinct_removeAll)
  have "filter (\<lambda>x. x \<in> set (k # ks)) (removeAll k order)
          = filter (\<lambda>x. x \<in> set ks) (removeAll k order)"
    by (rule filter_cong) auto
  also have "\<dots> = filter (\<lambda>x. x \<in> set ks) order"
    using assms(2) by (rule filter_removeAll_absent)
  also have "\<dots> = ks"
    using assms(1) by (rule ordered_byD)
  finally have "filter (\<lambda>x. x \<in> set (k # ks)) (removeAll k order) = ks" .
  then show "filter (\<lambda>x. x \<in> set (k # ks)) (touch k order) = k # ks"
    by (simp add: touch_def)
qed

lemma ordered_by_touch:
  assumes "ordered_by ks order"
  shows "ordered_by (k # removeAll k ks) (touch k order)"
  using ordered_by_removeAll [OF assms] by (rule ordered_by_Cons_touch) simp

lemma filter_butlast_distinct:
  assumes "distinct ks"
  shows "filter (\<lambda>x. x \<in> set (butlast ks)) ks = butlast ks"
proof (cases ks rule: rev_cases)
  case Nil
  then show ?thesis by simp
next
  case (snoc ys y)
  then show ?thesis using assms by (simp add: filter_id_conv)
qed

lemma ordered_by_butlast:
  assumes "ordered_by ks order"
  shows "ordered_by (butlast ks) order"
proof (rule ordered_byI)
  show "distinct order" using assms by (rule ordered_byD)
  have "distinct (filter (\<lambda>k. k \<in> set ks) order)"
    using ordered_byD(1) [OF assms] by (rule distinct_filter)
  then have d: "distinct ks"
    by (simp only: ordered_byD(2) [OF assms])
  have "filter (\<lambda>x. x \<in> set (butlast ks)) order
          = filter (\<lambda>x. x \<in> set (butlast ks)) (filter (\<lambda>x. x \<in> set ks) order)"
    by (induction order) (auto dest: in_set_butlastD)
  also have "\<dots> = filter (\<lambda>x. x \<in> set (butlast ks)) ks"
    by (simp only: ordered_byD(2) [OF assms])
  also have "\<dots> = butlast ks"
    using d by (rule filter_butlast_distinct)
  finally show "filter (\<lambda>x. x \<in> set (butlast ks)) order = butlast ks" .
qed

lemma touch_touch: "touch k (touch k order) = touch k order"
  by (simp add: touch_def)

lemma keys_cache_delete: "map ekey (cache_delete k c) = removeAll k (map ekey c)"
  by (induction c) (auto simp: cache_delete_def)

lemma cache_lookup_None_iff: "cache_lookup k c = None \<longleftrightarrow> k \<notin> set (map ekey c)"
  by (auto simp: cache_lookup_def find_None_iff)

lemma cache_get_ordered:
  assumes "ordered_by (map ekey c) order"
  shows "ordered_by (map ekey (snd (cache_get ttl t k c))) (touch k order)"
proof (cases "cache_lookup k c")
  case None
  then have "k \<notin> set (map ekey c)" by (simp add: cache_lookup_None_iff)
  with assms have "ordered_by (map ekey c) (touch k order)" by (rule ordered_by_touch_absent)
  then show ?thesis using None by (simp add: cache_get_def)
next
  case (Some e)
  then have key: "ekey e = k" by (simp add: cache_lookup_SomeD)
  show ?thesis
  proof (cases "is_stale ttl t e")
    case True
    have "ordered_by (removeAll k (map ekey c)) (touch k order)"
      using ordered_by_removeAll [OF assms] by (rule ordered_by_touch_absent) simp
    then show ?thesis using Some True by (simp add: cache_get_def keys_cache_delete)
  next
    case False
    have "ordered_by (k # removeAll k (map ekey c)) (touch k order)"
      using assms by (rule ordered_by_touch)
    then show ?thesis using Some False key by (simp add: cache_get_def keys_cache_delete)
  qed
qed

lemma cache_set_ordered:
  assumes "ordered_by (map ekey c) order"
  shows "ordered_by (map ekey (cache_set m t k v c)) (touch k order)"
proof (cases "cache_lookup k c")
  case None
  then have absent: "k \<notin> set (map ekey c)" by (simp add: cache_lookup_None_iff)
  let ?ks = "if m \<le> length c then butlast (map ekey c) else map ekey c"
  have "ordered_by ?ks order"
    using assms ordered_by_butlast [OF assms] by simp
  moreover have "k \<notin> set ?ks"
    using absent by (auto dest: in_set_butlastD)
  ultimately have "ordered_by (k # ?ks) (touch k order)"
    by (rule ordered_by_Cons_touch)
  then show ?thesis
    using None by (cases "m \<le> length c") (simp_all add: cache_set_def Let_def map_butlast)
next
  case (Some e)
  have "ordered_by (k # removeAll k (map ekey c)) (touch k order)"
    using assms by (rule ordered_by_touch)
  then show ?thesis
    using Some by (simp add: cache_set_def Let_def keys_cache_delete)
qed

lemma check_ordered:
  assumes "ordered_by (map ekey c) order"
  shows "ordered_by (map ekey (snd (check options t l k c))) (touch k order)"
proof -
  obtain hit c1 where g: "cache_get (interval options) t k c = (hit, c1)"
    by (cases "cache_get (interval options) t k c")
  have c1: "ordered_by (map ekey c1) (touch k order)"
    using cache_get_ordered [OF assms, of "interval options" t k] g by simp
  from cache_set_ordered [OF c1, of "uniqueTokenPerInterval options" t k]
  have "ordered_by (map ekey (cache_set (uniqueTokenPerInterval options) t k v c1)) (touch k order)"
    for v by (simp add: touch_touch)
  with c1 show ?thesis
    by (simp add: check_def g Let_def)
qed

lemma run_ordered:
  assumes "ordered_by (map ekey c) order"
  shows "ordered_by (map ekey (snd (run options calls c)))
           (foldl (\<lambda>ks call. touch (snd (snd call)) ks) order calls)"
  using assms
proof (induction calls arbitrary: c order)
  case Nil
  then show ?case by simp
next
  case (Cons x calls)
  obtain t l k where x: "x = (t, l, k)" by (cases x)
  have "ordered_by (map ekey (snd (check options t l k c))) (touch k order)"
    using Cons.prems by (rule check_ordered)
  from Cons.IH [OF this] show ?case
    by (simp add: x case_prod_beta)
qed

text \<open>
  In a list in order of recency every key but the last stands, in that order, before the
  last one: the last key is the least recently used.
\<close>

lemma filter_snoc_split:
  assumes "filter P xs = ys @ [y]"
  shows "\<exists>newer older. xs = newer @ y # older \<and> set ys \<subseteq> set newer"
  using assms
proof (induction xs arbitrary: ys)
  case Nil
  then show ?case by simp
next
  case (Cons x xs)
  show ?case
  proof (cases "P x")
    case False
    with Cons.prems have "filter P xs = ys @ [y]" by simp
    from Cons.IH [OF this] obtain newer older where
      fb: "xs = newer @ y # older" "set ys \<subseteq> set newer"
      by blast
    then have "x # xs = (x # newer) @ y # older \<and> set ys \<subseteq> set (x # newer)" by auto
    then show ?thesis by blast
  next
    case True
    with Cons.prems have eq: "x # filter P xs = ys @ [y]" by simp
    show ?thesis
    proof (cases ys)
      case Nil
      with eq have "x # xs = [] @ y # xs \<and> set ys \<subseteq> set []" by simp
      then show ?thesis by blast
    next
      case (Cons z zs)
      with eq have z: "z = x" and rest: "filter P xs = zs @ [y]" by simp_all
      from Cons.IH [OF rest] obtain newer older where
        fb: "xs = newer @ y # older" "set zs \<subseteq> set newer"
        by blast
      with Cons z have "x # xs = (x # newer) @ y # older \<and> set ys \<subseteq> set (x # newer)" by auto
      then show ?thesis by blast
    qed
  qed
qed

lemma last_is_least_recent:
  assumes "ordered_by ks order" and "ks \<noteq> []"
  shows "\<exists>newer older. order = newer @ last ks # older \<and> set (butlast ks) \<subseteq> set newer"
proof -
  have "filter (\<lambda>k. k \<in> set ks) order = butlast ks @ [last ks]"
    using assms(2) by (simp add: ordered_byD(2) [OF assms(1)])
  then show ?thesis by (rule filter_snoc_split)
qed

text \<open>
  C9, as stated, fails for a capacity of zero: a new key has no least recently used key
  to evict and is stored all the same, so the cache holds one entry.
\<close>

theorem zero_capacity_store_counterexample:
  "\<not> length (snd (run \<lparr>interval = 60000, uniqueTokenPerInterval = 0\<rparr>
        [(1700000000000, 20, ''user:a'')] []))
     \<le> uniqueTokenPerInterval \<lparr>interval = 60000, uniqueTokenPerInterval = 0\<rparr>"
  by (simp add: check_def cache_get_def cache_set_def cache_lookup_def Let_def)

text \<open>
  C9, amended. With a capacity of at least one, a cache within its capacity stays within
  it under every read, every write and every sequence of calls; so a limiter that starts
  empty never holds more than \<open>maxKeys\<close> entries. A new key written at capacity evicts the
  entry in the last slot. That entry is the least recently used one: a read and a write
  each make their key the most recent and keep the other keys in their order of recency,
  so that after any sequence of calls on a fresh limiter the cached keys stand in the
  order of their last calls, the latest first, and every other cached key was called
  after the last one. A key whose last write is more than \<open>ttl\<close> milliseconds old reads
  as absent, and a call of it has the result and leaves the cache that it would if the
  key had no entry.
\<close>

theorem store_bounded_lru_ttl:
  assumes "0 < uniqueTokenPerInterval options" and "length c \<le> uniqueTokenPerInterval options"
  shows "length (snd (cache_get (interval options) now k c)) \<le> uniqueTokenPerInterval options
       \<and> length (cache_set (uniqueTokenPerInterval options) now k v c) \<le> uniqueTokenPerInterval options
       \<and> length (snd (run options calls c)) \<le> uniqueTokenPerInterval options
       \<and> (cache_lookup k c = None \<and> length c = uniqueTokenPerInterval options \<longrightarrow>
            cache_set (uniqueTokenPerInterval options) now k v c
              = \<lparr>ekey = k, evalue = v, estart = now\<rparr> # butlast c)
       \<and> (ordered_by (map ekey c) order \<longrightarrow>
            ordered_by (map ekey (snd (cache_get (interval options) now k c))) (touch k order)
            \<and> ordered_by (map ekey (cache_set (uniqueTokenPerInterval options) now k v c))
                (touch k order)
            \<and> ordered_by (map ekey (snd (check options now limit k c))) (touch k order))
       \<and> ordered_by (map ekey (snd (run options calls []))) (recency calls)
       \<and> (snd (run options calls []) \<noteq> [] \<longrightarrow>
            (\<exists>newer older.
               recency calls = newer @ ekey (last (snd (run options calls []))) # older
               \<and> set (map ekey (butlast (snd (run options calls [])))) \<subseteq> set newer))
       \<and> (\<forall>e. cache_lookup k c = Some e \<and> is_stale (interval options) now e \<longrightarrow>
            fst (cache_get (interval options) now k c) = None
            \<and> cache_lookup k (cache_delete k c) = None
            \<and> check options now limit k c = check options now limit k (cache_delete k c))"
proof -
  have "length (snd (cache_get (interval options) now k c)) \<le> uniqueTokenPerInterval options"
    using length_cache_get [of "interval options" now k c] assms(2) by simp
  moreover have "length (cache_set (uniqueTokenPerInterval options) now k v c)
                   \<le> uniqueTokenPerInterval options"
    using assms by (rule length_cache_set)
  moreover have "length (snd (run options calls c)) \<le> uniqueTokenPerInterval options"
    using assms by (rule length_run)
  moreover have "cache_lookup k c = None \<and> length c = uniqueTokenPerInterval options \<longrightarrow>
            cache_set (uniqueTokenPerInterval options) now k v c
              = \<lparr>ekey = k, evalue = v, estart = now\<rparr> # butlast c"
    by (simp add: cache_set_def Let_def)
  moreover have "ordered_by (map ekey c) order \<longrightarrow>
            ordered_by (map ekey (snd (cache_get (interval options) now k c))) (touch k order)
            \<and> ordered_by (map ekey (cache_set (uniqueTokenPerInterval options) now k v c))
                (touch k order)
            \<and> ordered_by (map ekey (snd (check options now limit k c))) (touch k order)"
    by (simp add: cache_get_ordered cache_set_ordered check_ordered)
  moreover have run: "ordered_by (map ekey (snd (run options calls []))) (recency calls)"
  proof -
    have "ordered_by (map ekey []) []" by (simp add: ordered_by_def)
    from run_ordered [OF this] show ?thesis unfolding recency_def .
  qed
  moreover have "snd (run options calls []) \<noteq> [] \<longrightarrow>
            (\<exists>newer older.
               recency calls = newer @ ekey (last (snd (run options calls []))) # older
               \<and> set (map ekey (butlast (snd (run options calls [])))) \<subseteq> set newer)"
  proof
    assume ne: "snd (run options calls []) \<noteq> []"
    then have "map ekey (snd (run options calls [])) \<noteq> []" by simp
    from last_is_least_recent [OF run this]
    show "\<exists>newer older.
               recency calls = newer @ ekey (last (snd (run options calls []))) # older
               \<and> set (map ekey (butlast (snd (run options calls [])))) \<subseteq> set newer"
      by (simp only: last_map [OF ne] map_butlast)
  qed
  moreover have "\<forall>e. cache_lookup k c = Some e \<and> is_stale (interval options) now e \<longrightarrow>
            fst (cache_get (interval options) now k c) = None
            \<and> cache_lookup k (cache_delete k c) = None
            \<and> check options now limit k c = check options now limit k (cache_delete k c)"
    using check_stale_as_absent [of k c _ options now limit]
    by (simp add: cache_get_def cache_lookup_delete)
  ultimately show ?thesis by blast
qed

theorem store_bounded_lru_ttl_witness:
  "map ekey (snd (run \<lparr>interval = 60000, uniqueTokenPerInterval = 2\<rparr>
      [(1700000010000, 20, ''user:a''), (1700000020000, 20, ''user:b''),
       (1700000030000, 20, ''user:a''), (1700000040000, 20, ''user:c'')] []))
     = [''user:c'', ''user:a'']
   \<and> recency [(1700000010000, 20, ''user:a''), (1700000020000, 20, ''user:b''),
       (1700000030000, 20, ''user:a''), (1700000040000, 20, ''user:c'')]
     = [''user:c'', ''user:a'', ''user:b'']
   \<and> check \<lparr>interval = 60000, uniqueTokenPerInterval = 2\<rparr> 1700000070001 20 ''user:a''
      [\<lparr>ekey = ''user:b'', evalue = [1700000020000], estart = 1700000020000\<rparr>,
       \<lparr>ekey = ''user:a'', evalue = [1700000010000], estart = 1700000010000\<rparr>]
     = check \<lparr>interval = 60000, uniqueTokenPerInterval = 2\<rparr> 1700000070001 20 ''user:a''
      [\<lparr>ekey = ''user:b'', evalue = [1700000020000], estart = 1700000020000\<rparr>]"
proof -
  let ?o = "\<lparr>interval = 60000, uniqueTokenPerInterval = 2\<rparr>"
  let ?c = "[\<lparr>ekey = ''user:b'', evalue = [1700000020000], estart = 1700000020000\<rparr>,
             \<lparr>ekey = ''user:a'', evalue = [1700000010000], estart = 1700000010000\<rparr>]"
  let ?calls = "[(1700000010000, 20, ''user:a''), (1700000020000, 20, ''user:b''),
       (1700000030000, 20, ''user:a''), (1700000040000, 20, ''user:c'')]"
  have pos: "0 < uniqueTokenPerInterval ?o" by simp
  have len: "length ?c \<le> uniqueTokenPerInterval ?o" by simp
  have stale: "cache_lookup ''user:a'' ?c
                 = Some \<lparr>ekey = ''user:a'', evalue = [1700000010000], estart = 1700000010000\<rparr>
               \<and> is_stale (interval ?o) 1700000070001
                   \<lparr>ekey = ''user:a'', evalue = [1700000010000], estart = 1700000010000\<rparr>"
    by (simp add: cache_lookup_def is_stale_def)
  have del: "cache_delete ''user:a'' ?c
               = [\<lparr>ekey = ''user:b'', evalue = [1700000020000], estart = 1700000020000\<rparr>]"
    by (simp add: cache_delete_def)
  have rec: "recency ?calls = [''user:c'', ''user:a'', ''user:b'']"
    by (simp add: recency_def touch_def)
  note all = store_bounded_lru_ttl [OF pos len, of 1700000070001 "''user:a''" "[]" ?calls "[]" 20]
  from all stale
  have same: "check ?o 1700000070001 20 ''user:a'' ?c
          = check ?o 1700000070001 20 ''user:a'' (cache_delete ''user:a'' ?c)"
    by blast
  from all have "ordered_by (map ekey (snd (run ?o ?calls []))) (recency ?calls)"
    by blast
  then have ord: "map ekey (snd (run ?o ?calls []))
      = filter (\<lambda>k. k \<in> set (map ekey (snd (run ?o ?calls [])))) [''user:c'', ''user:a'', ''user:b'']"
    by (simp only: ordered_by_def rec)
  have keys: "map ekey (snd (run ?o ?calls [])) = [''user:c'', ''user:a'']"
    by (simp add: check_def binary64_round_def cache_get_def cache_set_def cache_lookup_def
        cache_delete_def is_stale_def Let_def)
  from same have "check ?o 1700000070001 20 ''user:a'' ?c
          = check ?o 1700000070001 20 ''user:a''
              [\<lparr>ekey = ''user:b'', evalue = [1700000020000], estart = 1700000020000\<rparr>]"
    by (simp only: del)
  with keys rec show ?thesis
    by (intro conjI)
qed

section \<open>Key derivation\<close>

lemma truthy_iff: "truthy v \<longleftrightarrow> (\<exists>s. v = Some s \<and> s \<noteq> [])"
  by (cases v) (simp_all add: truthy_def)

text \<open>
  C6, as the specification states it, fails: a forwarded-address header that is present
  with the empty value is passed over by the code, which goes on to the real-address
  header, while the specification's wording returns the bare prefix.
\<close>

theorem identify_empty_forwarded_counterexample:
  "getRateLimitIdentifier
     \<lparr>headers = [(''x-forwarded-for'', ''''), (''x-real-ip'', ''10.0.0.1'')]\<rparr> None = ''ip:10.0.0.1''
   \<and> identify_spec
     \<lparr>headers = [(''x-forwarded-for'', ''''), (''x-real-ip'', ''10.0.0.1'')]\<rparr> None = ''ip:''"
  by (simp add: getRateLimitIdentifier_def identify_spec_def headers_get_def js_or_def
      js_or_string_def truthy_def)

text \<open>
  C6, amended. The result is \<open>user:\<close> followed by the user identifier when that is present
  and non-empty. Otherwise it is \<open>ip:\<close> followed by the forwarded-address header when that
  header is present and non-empty, else by the real-address header when that one is present
  and non-empty, and \<open>ip:unknown\<close> when neither is.
\<close>

theorem getRateLimitIdentifier_cases:
  "(\<forall>u. userId = Some u \<and> u \<noteq> [] \<longrightarrow> getRateLimitIdentifier req userId = ''user:'' @ u) \<and>
   (userId = None \<or> userId = Some [] \<longrightarrow>
      (\<forall>v. headers_get req ''x-forwarded-for'' = Some v \<and> v \<noteq> [] \<longrightarrow>
           getRateLimitIdentifier req userId = ''ip:'' @ v) \<and>
      (headers_get req ''x-forwarded-for'' = None \<or> headers_get req ''x-forwarded-for'' = Some [] \<longrightarrow>
         (\<forall>v. headers_get req ''x-real-ip'' = Some v \<and> v \<noteq> [] \<longrightarrow>
              getRateLimitIdentifier req userId = ''ip:'' @ v) \<and>
         (headers_get req ''x-real-ip'' = None \<or> headers_get req ''x-real-ip'' = Some [] \<longrightarrow>
            getRateLimitIdentifier req userId = ''ip:unknown'')))"
  by (auto simp: getRateLimitIdentifier_def js_or_def js_or_string_def truthy_def Let_def
      split: option.splits)

theorem getRateLimitIdentifier_cases_witness:
  "getRateLimitIdentifier \<lparr>headers = [(''x-real-ip'', ''10.0.0.1'')]\<rparr> (Some ''u_42'') = ''user:u_42'' \<and>
   getRateLimitIdentifier
     \<lparr>headers = [(''x-forwarded-for'', ''''), (''x-real-ip'', ''10.0.0.1'')]\<rparr> None = ''ip:10.0.0.1'' \<and>
   getRateLimitIdentifier \<lparr>headers = []\<rparr> (Some '''') = ''ip:unknown''"
  using getRateLimitIdentifier_cases [of "Some ''u_42''" "\<lparr>headers = [(''x-real-ip'', ''10.0.0.1'')]\<rparr>"]
    getRateLimitIdentifier_cases [of None
      "\<lparr>headers = [(''x-forwarded-for'', ''''), (''x-real-ip'', ''10.0.0.1'')]\<rparr>"]
    getRateLimitIdentifier_cases [of "Some ''''" "\<lparr>headers = []\<rparr>"]
  by (simp add: headers_get_def)

section \<open>Content type\<close>

lemma startsWith_toLowerCase:
  "startsWith (toLowerCase s) (toLowerCase p) = starts_with_ignoring_case s p"
proof (cases "length p \<le> length s")
  case True
  have "(map toLowerCase_char (take (length p) s) = map toLowerCase_char p)
        = list_all2 same_ignoring_case (take (length p) s) p"
    by (simp add: list_all2_conv_all_nth list_eq_iff_nth_eq same_ignoring_case_def True min_def)
  then show ?thesis
    using True by (simp add: startsWith_def toLowerCase_def starts_with_ignoring_case_def take_map)
next
  case False
  then have "length (take (length p) (map toLowerCase_char s)) \<noteq> length (map toLowerCase_char p)"
    by simp
  then have "take (length p) (map toLowerCase_char s) \<noteq> map toLowerCase_char p"
    by metis
  then show ?thesis
    using False by (simp add: startsWith_def toLowerCase_def starts_with_ignoring_case_def)
qed

text \<open>
  C10, as stated, fails: with a content-type header that is present and empty and the
  empty expected type, the prefix test succeeds and the code still answers false.
\<close>

theorem validateContentType_empty_header_counterexample:
  "validateContentType \<lparr>headers = [(''content-type'', '''')]\<rparr> (Some '''') = False
   \<and> validateContentType_spec \<lparr>headers = [(''content-type'', '''')]\<rparr> '''' = True"
  by (simp add: validateContentType_def validateContentType_spec_def headers_get_def truthy_def
      starts_with_ignoring_case_def)

text \<open>
  C10, amended. \<open>validateContentType\<close> returns false when the request has no content-type
  header or an empty one; otherwise it returns true exactly when the header value starts
  with the expected type, case ignored, so that a charset suffix is accepted.
\<close>

theorem validateContentType_iff:
  "validateContentType req (Some expectedType) =
     (case headers_get req ''content-type'' of
        None \<Rightarrow> False
      | Some ct \<Rightarrow> ct \<noteq> [] \<and> starts_with_ignoring_case ct expectedType)"
  by (auto simp: validateContentType_def truthy_def startsWith_toLowerCase split: option.splits)

theorem validateContentType_iff_witness:
  "validateContentType \<lparr>headers = [(''content-type'', ''Application/JSON; charset=utf-8'')]\<rparr>
     (Some ''application/json'') = True"
  using validateContentType_iff [of "\<lparr>headers = [(''content-type'', ''Application/JSON; charset=utf-8'')]\<rparr>"
      "''application/json''"]
  by (simp add: headers_get_def starts_with_ignoring_case_def same_ignoring_case_def
      toLowerCase_char_def char_of_def bit_Suc_0_iff)

end
